theory Spec2Isabelle
  imports Complex_Main
begin

section \<open>Quantities\<close>

text \<open>
  The source computes with unit-tagged values (\<^verbatim>\<open>Quantity\<close> of the \<^verbatim>\<open>quantities\<close>
  package): a magnitude together with a unit. Floating-point magnitudes are idealised as
  reals. A unit is represented by its size in the base unit of its dimension (a
  millisecond is \<open>1 / 1000\<close> of a second, a kilohertz is \<open>1000\<close> hertz), so that
  rescaling is a multiplication by a quotient of unit sizes. The dimension is not
  recorded: each parameter of the sampler has a fixed one (\<open>t_start\<close>, \<open>t_stop\<close> are
  times, \<open>mean_rate\<close> is a rate).
\<close>

record quantity =
  magnitude :: real
  units :: real

text \<open>
  Modelled from the spec: the unit-rescaling primitive \<^verbatim>\<open>rescale(quantity, target_unit)\<close>
  of the \<^verbatim>\<open>quantities\<close> package, which is not part of the repository. It converts a
  quantity to a target unit, here giving the magnitude in the target unit.
\<close>

definition rescale_to :: "quantity \<Rightarrow> real \<Rightarrow> real" where
  "rescale_to q u = magnitude q * units q / u"

text \<open>
  Modelled from the spec: arithmetic on quantities. \<^verbatim>\<open>a - b\<close> rescales \<open>b\<close> to the
  unit of \<open>a\<close>; \<^verbatim>\<open>a * b\<close> multiplies magnitudes and units; \<^verbatim>\<open>.simplified\<close> expresses a
  quantity in base units (for a dimensionless product its plain value); \<^verbatim>\<open>1 / q\<close> and
  \<^verbatim>\<open>q / a\<close> (for a number \<open>a\<close>) divide the magnitude.
\<close>

definition q_minus :: "quantity \<Rightarrow> quantity \<Rightarrow> quantity" where
  "q_minus a b = \<lparr>magnitude = magnitude a - rescale_to b (units a), units = units a\<rparr>"

definition q_times :: "quantity \<Rightarrow> quantity \<Rightarrow> quantity" where
  "q_times a b = \<lparr>magnitude = magnitude a * magnitude b, units = units a * units b\<rparr>"

definition simplified :: "quantity \<Rightarrow> real" where
  "simplified q = magnitude q * units q"

definition q_inverse :: "quantity \<Rightarrow> quantity" where
  "q_inverse q = \<lparr>magnitude = 1 / magnitude q, units = 1 / units q\<rparr>"

definition q_div_number :: "quantity \<Rightarrow> real \<Rightarrow> quantity" where
  "q_div_number q a = \<lparr>magnitude = magnitude q / a, units = units q\<rparr>"

definition q_less :: "quantity \<Rightarrow> quantity \<Rightarrow> bool" where
  "q_less a b = (magnitude a < rescale_to b (units a))"

section \<open>The renewal process sampler\<close>

datatype error = AssertionError | IndexError

text \<open>Python's \<^verbatim>\<open>int(x)\<close> on a float truncates towards zero.\<close>

definition python_int :: "real \<Rightarrow> int" where
  "python_int x = (if 0 \<le> x then \<lfloor>x\<rfloor> else \<lceil>x\<rceil>)"

text \<open>
  The nested helper \<^verbatim>\<open>rescale(x) = (x / mean_rate.units).rescale(t_stop.units)\<close>:
  a plain number drawn by the generator is read in the inverse of the rate's unit and
  converted to the unit of \<open>t_stop\<close>.
\<close>

definition rescale :: "quantity \<Rightarrow> quantity \<Rightarrow> real \<Rightarrow> real" where
  "rescale mean_rate t_stop x =
     rescale_to \<lparr>magnitude = x, units = 1 / units mean_rate\<rparr> (units t_stop)"

text \<open>\<^verbatim>\<open>n = int(((t_stop - t_start) * mean_rate).simplified)\<close>\<close>

definition expected_count :: "quantity \<Rightarrow> quantity \<Rightarrow> quantity \<Rightarrow> int" where
  "expected_count mean_rate t_start t_stop =
     python_int (simplified (q_times (q_minus t_stop t_start) mean_rate))"

text \<open>
  The sample count \<^verbatim>\<open>number\<close>. For a negative \<open>n\<close>, \<^verbatim>\<open>np.sqrt(n)\<close> is NaN, which
  \<^verbatim>\<open>np.ceil\<close> keeps and which makes \<^verbatim>\<open>number < 100\<close> false: \<open>None\<close> stands for NaN.
\<close>

definition sample_number :: "int \<Rightarrow> int option" where
  "sample_number n =
     (if n < 0 then None
      else
        let number = \<lceil>real_of_int n + 3 * sqrt (real_of_int n)\<rceil> in
        Some (if number < 100 then min (5 + \<lceil>real_of_int (2 * n)\<rceil>) 100 else number))"

text \<open>
  The interval generator is a parameter of the sampler. It is called with the argument
  tuple and a size, returns an array of samples, and draws on a random state that the
  source keeps hidden (the global state of \<^verbatim>\<open>np.random\<close>); the state is passed
  explicitly here.
\<close>

type_synonym ('a, 'g) interval_generator = "'a \<Rightarrow> nat \<Rightarrow> 'g \<Rightarrow> real list \<times> 'g"

text \<open>\<^verbatim>\<open>np.cumsum\<close>: the running sums of an array.\<close>

fun cumsum_from :: "real \<Rightarrow> real list \<Rightarrow> real list" where
  "cumsum_from acc [] = []"
| "cumsum_from acc (x # xs) = (acc + x) # cumsum_from (acc + x) xs"

definition cumsum :: "real list \<Rightarrow> real list" where
  "cumsum xs = cumsum_from 0 xs"

text \<open>
  \<^verbatim>\<open>ndarray.searchsorted(v)\<close> with the default \<^verbatim>\<open>side='left'\<close>: numpy's binary search
  between \<open>lo\<close> and \<open>hi\<close>, which on a sorted array returns the leftmost insertion index.
\<close>

function binsearch_left :: "real list \<Rightarrow> real \<Rightarrow> nat \<Rightarrow> nat \<Rightarrow> nat" where
  "binsearch_left arr key lo hi =
     (if lo < hi then
        let mid = lo + (hi - lo) div 2 in
        if arr ! mid < key then binsearch_left arr key (mid + 1) hi
        else binsearch_left arr key lo mid
      else lo)"
  by pat_completeness auto
termination
  by (relation "measure (\<lambda>(arr, key, lo, hi). hi - lo)") auto

declare binsearch_left.simps [simp del]

definition searchsorted :: "real list \<Rightarrow> real \<Rightarrow> nat" where
  "searchsorted arr key = binsearch_left arr key 0 (length arr)"

text \<open>
  Lines 29 to 31: the bulk draw of \<open>number\<close> intervals, rescaled, summed up and offset by
  \<open>t_start\<close> (the in-place addition rescales \<open>t_start\<close> to the unit of the array, which is
  the unit of \<open>t_stop\<close>).
\<close>

definition bulk_spikes ::
  "('a, 'g) interval_generator \<Rightarrow> 'a \<Rightarrow> quantity \<Rightarrow> quantity \<Rightarrow> quantity \<Rightarrow> int \<Rightarrow> 'g
     \<Rightarrow> real list \<times> 'g" where
  "bulk_spikes interval_generator args mean_rate t_start t_stop number g =
     (let (raw, g1) = interval_generator args (nat number) g;
          isi = map (rescale mean_rate t_stop) raw;
          spikes = cumsum isi
      in (map (\<lambda>s. s + rescale_to t_start (units t_stop)) spikes, g1))"

text \<open>
  \<^verbatim>\<open>rescale(interval_generator(*args, size=1))[0]\<close>: one more interval. Indexing an
  empty array raises.
\<close>

definition draw_one ::
  "('a, 'g) interval_generator \<Rightarrow> 'a \<Rightarrow> quantity \<Rightarrow> quantity \<Rightarrow> 'g \<Rightarrow> error + real \<times> 'g" where
  "draw_one interval_generator args mean_rate t_stop g =
     (let (raw, g1) = interval_generator args 1 g in
      case map (rescale mean_rate t_stop) raw of
        [] \<Rightarrow> Inl IndexError
      | x # _ \<Rightarrow> Inr (x, g1))"

text \<open>
  The extension loop of lines 38 to 40. Its state is the running time \<open>t_last\<close>, the list
  \<open>extra_spikes\<close> and the random state. The loop has no bound: a run that never leaves it
  is the value \<open>None\<close>.
\<close>

record 'g loop_state =
  t_last :: real
  extra_spikes :: "real list"
  rng :: 'g

partial_function (option) extension_loop ::
  "('a, 'g) interval_generator \<Rightarrow> 'a \<Rightarrow> quantity \<Rightarrow> quantity \<Rightarrow> 'g loop_state
     \<Rightarrow> (error + 'g loop_state) option" where
  "extension_loop interval_generator args mean_rate t_stop st =
     (if t_last st < magnitude t_stop then
        (case draw_one interval_generator args mean_rate t_stop (rng st) of
           Inl e \<Rightarrow> Some (Inl e)
         | Inr (x, g1) \<Rightarrow>
             extension_loop interval_generator args mean_rate t_stop
               \<lparr>t_last = t_last st + x,
                extra_spikes = extra_spikes st @ [t_last st],
                rng = g1\<rparr>)
      else Some (Inr st))"

text \<open>
  The result: the raw array of magnitudes, or a \<^verbatim>\<open>SpikeTrain\<close> holding the times with
  \<open>t_start\<close>, \<open>t_stop\<close> and the unit. The container is external to the repository; it is
  modelled as a plain constructor.
\<close>

datatype spike_result =
  Array "real list"
| SpikeTrain "real list" quantity quantity real

fun times :: "spike_result \<Rightarrow> real list" where
  "times (Array xs) = xs"
| "times (SpikeTrain xs t0 t1 u) = xs"

definition package :: "bool \<Rightarrow> real list \<Rightarrow> quantity \<Rightarrow> quantity \<Rightarrow> spike_result" where
  "package as_array spikes t_start t_stop =
     (if as_array then Array spikes
      else SpikeTrain spikes t_start t_stop (units t_stop))"

text \<open>
  \<^verbatim>\<open>_homogeneous_process\<close>. The result is \<open>None\<close> when the call does not return,
  \<open>Some (Inl e)\<close> when it raises \<open>e\<close>, and \<open>Some (Inr (out, g))\<close> when it returns \<open>out\<close>
  and leaves the random state \<open>g\<close>.
\<close>

definition homogeneous_process ::
  "('a, 'g) interval_generator \<Rightarrow> 'a \<Rightarrow> quantity \<Rightarrow> quantity \<Rightarrow> quantity \<Rightarrow> bool \<Rightarrow> 'g
     \<Rightarrow> (error + spike_result \<times> 'g) option" where
  "homogeneous_process interval_generator args mean_rate t_start t_stop as_array g =
     (case sample_number (expected_count mean_rate t_start t_stop) of
        None \<Rightarrow> Some (Inl AssertionError)
      | Some number \<Rightarrow>
          if \<not> number > 4 then Some (Inl AssertionError)
          else
            let (spikes, g1) =
                  bulk_spikes interval_generator args mean_rate t_start t_stop number g;
                i = searchsorted spikes (magnitude t_stop)
            in
              if i = length spikes then
                (if spikes = [] then Some (Inl IndexError)
                 else
                   case draw_one interval_generator args mean_rate t_stop g1 of
                     Inl e \<Rightarrow> Some (Inl e)
                   | Inr (x, g2) \<Rightarrow>
                       (case extension_loop interval_generator args mean_rate t_stop
                               \<lparr>t_last = last spikes + x, extra_spikes = [], rng = g2\<rparr> of
                          None \<Rightarrow> None
                        | Some (Inl e) \<Rightarrow> Some (Inl e)
                        | Some (Inr st) \<Rightarrow>
                            Some (Inr (package as_array (spikes @ extra_spikes st)
                                         t_start t_stop, rng st))))
              else Some (Inr (package as_array (take i spikes) t_start t_stop, g1)))"

section \<open>The parameter adapters\<close>

text \<open>
  The argument tuples hold plain numbers and quantities. The two generators
  \<^verbatim>\<open>np.random.exponential\<close> and \<^verbatim>\<open>np.random.gamma\<close> are external and are parameters of
  the adapters.
\<close>

datatype arg = Number real | Quantity quantity

definition homogeneous_poisson_process ::
  "(arg list, 'g) interval_generator \<Rightarrow> quantity \<Rightarrow> quantity \<Rightarrow> quantity \<Rightarrow> bool \<Rightarrow> 'g
     \<Rightarrow> (error + spike_result \<times> 'g) option" where
  "homogeneous_poisson_process np_random_exponential rate t_start t_stop as_array g =
     (let mean_interval = q_inverse rate in
      homogeneous_process np_random_exponential [Quantity mean_interval] rate
        t_start t_stop as_array g)"

definition homogeneous_gamma_process ::
  "(arg list, 'g) interval_generator \<Rightarrow> real \<Rightarrow> quantity \<Rightarrow> quantity \<Rightarrow> quantity \<Rightarrow> bool \<Rightarrow> 'g
     \<Rightarrow> (error + spike_result \<times> 'g) option" where
  "homogeneous_gamma_process np_random_gamma a b t_start t_stop as_array g =
     (let rate = q_div_number b a;
          k = a;
          theta = q_inverse b
      in homogeneous_process np_random_gamma [Number k, Quantity theta] rate
           t_start t_stop as_array g)"

section \<open>Auxiliary notions for the properties\<close>

text \<open>
  The sample count as the specification words it, on the untruncated product
  \<open>n = (t_stop - t_start) * mean_rate\<close>: \<open>ceil(n + 3 * sqrt(n))\<close>, raised to
  \<open>min(5 + ceil(2 * n), 100)\<close> when below \<open>100\<close>.
\<close>

definition spec_sample_size :: "real \<Rightarrow> int" where
  "spec_sample_size n =
     (let size = \<lceil>n + 3 * sqrt n\<rceil> in
      if size < 100 then min (5 + \<lceil>2 * n\<rceil>) 100 else size)"

text \<open>
  Two generators, each with its own kind of random state, return the same values when
  their states are related by \<open>R\<close>: \<open>R\<close> is kept by every draw, and related states give
  equal arrays.
\<close>

definition same_draws ::
  "('a, 'g) interval_generator \<Rightarrow> 'a \<Rightarrow> ('c, 'h) interval_generator \<Rightarrow> 'c \<Rightarrow> ('g \<Rightarrow> 'h \<Rightarrow> bool) \<Rightarrow> bool" where
  "same_draws gen1 a1 gen2 a2 R =
     (\<forall>n g h. R g h \<longrightarrow>
        fst (gen1 a1 n g) = fst (gen2 a2 n h) \<and> R (snd (gen1 a1 n g)) (snd (gen2 a2 n h)))"

text \<open>Two loop states that agree up to related random states.\<close>

definition same_state :: "('g \<Rightarrow> 'h \<Rightarrow> bool) \<Rightarrow> 'g loop_state \<Rightarrow> 'h loop_state \<Rightarrow> bool" where
  "same_state R u v = (t_last u = t_last v \<and> extra_spikes u = extra_spikes v \<and> R (rng u) (rng v))"

text \<open>
  The units \<^verbatim>\<open>ms\<close> and \<^verbatim>\<open>Hz\<close> that the source imports, as functions making a quantity
  from a magnitude: \<open>ms 1000\<close> is \<^verbatim>\<open>1000.0 * ms\<close>, the default \<open>t_stop\<close>.
\<close>

definition ms :: "real \<Rightarrow> quantity" where
  "ms x = \<lparr>magnitude = x, units = 1 / 1000\<rparr>"

definition Hz :: "real \<Rightarrow> quantity" where
  "Hz x = \<lparr>magnitude = x, units = 1\<rparr>"

text \<open>
  Concrete generators for the examples. The first returns the same interval \<open>c\<close> forever
  and counts the samples drawn in its state; the second does the same without a state.
  The third stands in for \<^verbatim>\<open>np.random.exponential\<close> and \<^verbatim>\<open>np.random.gamma\<close>: it
  returns the mean of the distribution that the argument tuple describes (the scale of
  the exponential distribution, shape times scale of the gamma distribution), reading a
  quantity by its magnitude as numpy does.
\<close>

definition constant_generator :: "real \<Rightarrow> ('a, nat) interval_generator" where
  "constant_generator c args n g = (replicate n c, g + n)"

definition stateless_generator :: "real \<Rightarrow> ('a, unit) interval_generator" where
  "stateless_generator c args n g = (replicate n c, ())"

fun distribution_mean :: "arg list \<Rightarrow> real" where
  "distribution_mean [Quantity scale] = magnitude scale"
| "distribution_mean [Number k, Quantity theta] = k * magnitude theta"
| "distribution_mean other = 0"

definition mean_generator :: "(arg list, nat) interval_generator" where
  "mean_generator args n g = (replicate n (distribution_mean args), g + n)"

section \<open>Properties of the building blocks\<close>

subsection \<open>The sample count\<close>

lemma sqrt_quarter: "sqrt (1 / 4) = 1 / 2"
  by (rule real_sqrt_unique) (simp_all add: power2_eq_square)

lemma ceiling_half: "\<lceil>1 / 2 :: real\<rceil> = 1"
  by (rule ceiling_unique) simp_all





subsection \<open>Running sums and the binary search\<close>

lemma cumsum_from_ge: "\<forall>x\<in>set xs. 0 \<le> x \<Longrightarrow> y \<in> set (cumsum_from a xs) \<Longrightarrow> a \<le> y"
proof (induction xs arbitrary: a)
  case Nil
  then show ?case by simp
next
  case (Cons x xs)
  from Cons.prems have "0 \<le> x" and rest: "\<forall>x\<in>set xs. 0 \<le> x" by simp_all
  from Cons.prems(2) consider "y = a + x" | "y \<in> set (cumsum_from (a + x) xs)" by auto
  then show ?case
  proof cases
    case 1
    with \<open>0 \<le> x\<close> show ?thesis by simp
  next
    case 2
    from Cons.IH [OF rest 2] \<open>0 \<le> x\<close> show ?thesis by simp
  qed
qed

lemma cumsum_from_sorted: "\<forall>x\<in>set xs. 0 \<le> x \<Longrightarrow> sorted (cumsum_from a xs)"
proof (induction xs arbitrary: a)
  case Nil
  then show ?case by simp
next
  case (Cons x xs)
  then have rest: "\<forall>x\<in>set xs. 0 \<le> x" by simp
  have "\<forall>y\<in>set (cumsum_from (a + x) xs). a + x \<le> y"
    using cumsum_from_ge [OF rest] by blast
  with Cons.IH [OF rest] show ?case by simp
qed


lemma binsearch_left_stop: "\<not> lo < hi \<Longrightarrow> binsearch_left arr key lo hi = lo"
  by (subst binsearch_left.simps) simp

lemma binsearch_left_right:
  "lo < hi \<Longrightarrow> arr ! (lo + (hi - lo) div 2) < key \<Longrightarrow>
   binsearch_left arr key lo hi = binsearch_left arr key (lo + (hi - lo) div 2 + 1) hi"
  by (subst binsearch_left.simps) (simp add: Let_def)

lemma binsearch_left_left:
  "lo < hi \<Longrightarrow> \<not> arr ! (lo + (hi - lo) div 2) < key \<Longrightarrow>
   binsearch_left arr key lo hi = binsearch_left arr key lo (lo + (hi - lo) div 2)"
  by (subst binsearch_left.simps) (simp add: Let_def)

lemma binsearch_left_bounds:
  "lo \<le> hi \<Longrightarrow> lo \<le> binsearch_left arr key lo hi \<and> binsearch_left arr key lo hi \<le> hi"
proof (induction arr key lo hi rule: binsearch_left.induct)
  case (1 arr key lo hi)
  show ?case
  proof (cases "lo < hi")
    case False
    with "1.prems" show ?thesis by (simp add: binsearch_left_stop)
  next
    case True
    define mid where "mid = lo + (hi - lo) div 2"
    from True have m: "lo \<le> mid" "mid < hi" by (simp_all add: mid_def)
    show ?thesis
    proof (cases "arr ! mid < key")
      case lt: True
      from "1.IH"(1) [OF True mid_def lt] m
      have "mid + 1 \<le> binsearch_left arr key (mid + 1) hi \<and> binsearch_left arr key (mid + 1) hi \<le> hi"
        by simp
      with True lt m show ?thesis
        using binsearch_left_right [of lo hi arr key] by (simp add: mid_def)
    next
      case ge: False
      from "1.IH"(2) [OF True mid_def ge] m
      have "lo \<le> binsearch_left arr key lo mid \<and> binsearch_left arr key lo mid \<le> mid"
        by simp
      with True ge m show ?thesis
        using binsearch_left_left [of lo hi arr key] by (simp add: mid_def)
    qed
  qed
qed

lemma binsearch_left_sorted:
  assumes "sorted arr" "lo \<le> hi" "hi \<le> length arr"
    and "\<forall>j<lo. arr ! j < key"
    and "\<forall>j. hi \<le> j \<and> j < length arr \<longrightarrow> key \<le> arr ! j"
  shows "(\<forall>j<binsearch_left arr key lo hi. arr ! j < key) \<and>
         (\<forall>j. binsearch_left arr key lo hi \<le> j \<and> j < length arr \<longrightarrow> key \<le> arr ! j)"
  using assms
proof (induction arr key lo hi rule: binsearch_left.induct)
  case (1 arr key lo hi)
  show ?case
  proof (cases "lo < hi")
    case False
    with "1.prems" have "hi = lo" by simp
    with "1.prems" False show ?thesis by (simp add: binsearch_left_stop)
  next
    case True
    define mid where "mid = lo + (hi - lo) div 2"
    from True have m: "lo \<le> mid" "mid < hi" by (simp_all add: mid_def)
    show ?thesis
    proof (cases "arr ! mid < key")
      case lt: True
      have below: "\<forall>j<mid + 1. arr ! j < key"
      proof (intro allI impI)
        fix j assume "j < mid + 1"
        then have "j \<le> mid" by simp
        with \<open>sorted arr\<close> m "1.prems"(3) have "arr ! j \<le> arr ! mid"
          by (simp add: sorted_nth_mono)
        with lt show "arr ! j < key" by simp
      qed
      from "1.IH"(1) [OF True mid_def lt "1.prems"(1) _ "1.prems"(3) below "1.prems"(5)] m
      have "(\<forall>j<binsearch_left arr key (mid + 1) hi. arr ! j < key) \<and>
         (\<forall>j. binsearch_left arr key (mid + 1) hi \<le> j \<and> j < length arr \<longrightarrow> key \<le> arr ! j)"
        by simp
      with True lt show ?thesis
        using binsearch_left_right [of lo hi arr key] by (simp add: mid_def)
    next
      case ge: False
      have above: "\<forall>j. mid \<le> j \<and> j < length arr \<longrightarrow> key \<le> arr ! j"
      proof (intro allI impI)
        fix j assume "mid \<le> j \<and> j < length arr"
        with \<open>sorted arr\<close> have "arr ! mid \<le> arr ! j"
          by (simp add: sorted_nth_mono)
        with ge show "key \<le> arr ! j" by simp
      qed
      from m "1.prems"(3) have "mid \<le> length arr" by simp
      from "1.IH"(2) [OF True mid_def ge "1.prems"(1) m(1) this "1.prems"(4) above]
      have "(\<forall>j<binsearch_left arr key lo mid. arr ! j < key) \<and>
         (\<forall>j. binsearch_left arr key lo mid \<le> j \<and> j < length arr \<longrightarrow> key \<le> arr ! j)" .
      with True ge show ?thesis
        using binsearch_left_left [of lo hi arr key] by (simp add: mid_def)
    qed
  qed
qed

lemma searchsorted_le_length: "searchsorted arr key \<le> length arr"
  using binsearch_left_bounds [of 0 "length arr" arr key] by (simp add: searchsorted_def)

lemma searchsorted_sorted:
  assumes "sorted arr"
  shows "(\<forall>j<searchsorted arr key. arr ! j < key) \<and>
         (\<forall>j. searchsorted arr key \<le> j \<and> j < length arr \<longrightarrow> key \<le> arr ! j)"
  using binsearch_left_sorted [OF assms, of 0 "length arr" key] by (simp add: searchsorted_def)

lemma searchsorted_take_less:
  assumes "sorted arr" "x \<in> set (take (searchsorted arr key) arr)"
  shows "x < key"
proof -
  from assms(2) obtain j where "j < length (take (searchsorted arr key) arr)"
    and "x = take (searchsorted arr key) arr ! j"
    by (auto simp: in_set_conv_nth)
  then have "j < searchsorted arr key" and "x = arr ! j" by simp_all
  with searchsorted_sorted [OF assms(1), of key] show ?thesis by simp
qed

subsection \<open>The extension loop\<close>



lemma extension_loop_invariant:
  assumes run: "extension_loop gen args mr te st = Some (Inr fin)"
    and init: "I st"
    and step: "\<And>s x g1. I s \<Longrightarrow> t_last s < magnitude te \<Longrightarrow>
        draw_one gen args mr te (rng s) = Inr (x, g1) \<Longrightarrow>
        I \<lparr>t_last = t_last s + x, extra_spikes = extra_spikes s @ [t_last s], rng = g1\<rparr>"
  shows "I fin \<and> \<not> t_last fin < magnitude te"
proof -
  let ?step = "\<lambda>gen args mr te. \<forall>s x g1. I s \<longrightarrow> t_last s < magnitude te \<longrightarrow>
        draw_one gen args mr te (rng s) = Inr (x, g1) \<longrightarrow>
        I \<lparr>t_last = t_last s + x, extra_spikes = extra_spikes s @ [t_last s], rng = g1\<rparr>"
  have "(Inr fin :: error + _) = Inr fin \<longrightarrow> I st \<longrightarrow> ?step gen args mr te \<longrightarrow> I fin \<and> \<not> t_last fin < magnitude te"
    apply (rule extension_loop.raw_induct [where P = "\<lambda>gen args mr te st y.
      y = Inr fin \<longrightarrow> I st \<longrightarrow> ?step gen args mr te \<longrightarrow> I fin \<and> \<not> t_last fin < magnitude te", OF _ run])
    subgoal premises prems for loop gen args mr te st y
    proof (intro impI)
      assume y: "y = Inr fin" and I: "I st" and stp: "?step gen args mr te"
      show "I fin \<and> \<not> t_last fin < magnitude te"
      proof (cases "t_last st < magnitude te")
        case False
        with prems(2) have "y = Inr st" by simp
        with y I False show ?thesis by simp
      next
        case True
        show ?thesis
        proof (cases "draw_one gen args mr te (rng st)")
          case (Inl e)
          with prems(2) True have "y = Inl e" by simp
          with y show ?thesis by simp
        next
          case (Inr p)
          obtain x g1 where p: "p = (x, g1)" by (cases p)
          let ?s = "\<lparr>t_last = t_last st + x, extra_spikes = extra_spikes st @ [t_last st], rng = g1\<rparr>"
          from prems(2) True Inr p have run': "loop gen args mr te ?s = Some y" by simp
          from stp I True Inr p have "I ?s" by blast
          with prems(1) [OF run'] y stp show ?thesis by blast
        qed
      qed
    qed
    done
  with init step show ?thesis by blast
qed


subsection \<open>Generators that return the same values\<close>

lemma same_draws_sym: "same_draws gen1 a1 gen2 a2 R \<Longrightarrow> same_draws gen2 a2 gen1 a1 (\<lambda>h g. R g h)"
  by (simp add: same_draws_def)

lemma draw_one_same:
  assumes "same_draws gen1 a1 gen2 a2 R" "R g h"
  shows "rel_sum (=) (\<lambda>p q. fst p = fst q \<and> R (snd p) (snd q))
           (draw_one gen1 a1 mr te g) (draw_one gen2 a2 mr te h)"
proof -
  from assms have v: "fst (gen1 a1 1 g) = fst (gen2 a2 1 h)"
    and s: "R (snd (gen1 a1 1 g)) (snd (gen2 a2 1 h))"
    by (simp_all add: same_draws_def)
  obtain r1 g1 where e1: "gen1 a1 1 g = (r1, g1)" by (cases "gen1 a1 1 g")
  obtain r2 h1 where e2: "gen2 a2 1 h = (r2, h1)" by (cases "gen2 a2 1 h")
  from v s e1 e2 have "r1 = r2" "R g1 h1" by simp_all
  with e1 e2 show ?thesis
    by (cases r2) (simp_all add: draw_one_def)
qed

lemma bulk_spikes_same:
  assumes "same_draws gen1 a1 gen2 a2 R" "R g h"
  shows "fst (bulk_spikes gen1 a1 mr ts te number g) = fst (bulk_spikes gen2 a2 mr ts te number h)
    \<and> R (snd (bulk_spikes gen1 a1 mr ts te number g)) (snd (bulk_spikes gen2 a2 mr ts te number h))"
proof -
  from assms have v: "fst (gen1 a1 (nat number) g) = fst (gen2 a2 (nat number) h)"
    and s: "R (snd (gen1 a1 (nat number) g)) (snd (gen2 a2 (nat number) h))"
    by (simp_all add: same_draws_def)
  then show ?thesis
    by (simp add: bulk_spikes_def split_beta Let_def)
qed

lemma extension_loop_simulated:
  assumes run: "extension_loop gen1 a1 mr te s1 = Some y1"
    and sim: "same_draws gen1 a1 gen2 a2 R"
    and rel: "same_state R s1 s2"
  shows "\<exists>y2. extension_loop gen2 a2 mr te s2 = Some y2 \<and> rel_sum (=) (same_state R) y1 y2"
proof -
  have "same_draws gen1 a1 gen2 a2 R \<longrightarrow>
        (\<forall>s2. same_state R s1 s2 \<longrightarrow>
          (\<exists>y2. extension_loop gen2 a2 mr te s2 = Some y2 \<and> rel_sum (=) (same_state R) y1 y2))"
    apply (rule extension_loop.raw_induct [where P = "\<lambda>gen1 a1 mr te s1 y1.
        same_draws gen1 a1 gen2 a2 R \<longrightarrow>
        (\<forall>s2. same_state R s1 s2 \<longrightarrow>
          (\<exists>y2. extension_loop gen2 a2 mr te s2 = Some y2 \<and> rel_sum (=) (same_state R) y1 y2))",
        OF _ run])
    subgoal premises prems for loop gen1 a1 mr te s1 y1
    proof (intro impI allI)
      fix s2
      assume sim: "same_draws gen1 a1 gen2 a2 R" and rel: "same_state R s1 s2"
      from rel have t: "t_last s1 = t_last s2" and e: "extra_spikes s1 = extra_spikes s2"
        and r: "R (rng s1) (rng s2)" by (simp_all add: same_state_def)
      show "\<exists>y2. extension_loop gen2 a2 mr te s2 = Some y2 \<and> rel_sum (=) (same_state R) y1 y2"
      proof (cases "t_last s1 < magnitude te")
        case False
        with prems(2) have "y1 = Inr s1" by simp
        moreover from False t have "extension_loop gen2 a2 mr te s2 = Some (Inr s2)"
          by (subst extension_loop.simps) simp
        ultimately show ?thesis using rel by simp
      next
        case True
        note d = draw_one_same [OF sim r, of mr te]
        show ?thesis
        proof (cases "draw_one gen1 a1 mr te (rng s1)")
          case (Inl err)
          with d have d2: "draw_one gen2 a2 mr te (rng s2) = Inl err"
            by (cases "draw_one gen2 a2 mr te (rng s2)") simp_all
          from prems(2) True Inl have "y1 = Inl err" by simp
          moreover from True t d2 have "extension_loop gen2 a2 mr te s2 = Some (Inl err)"
            by (subst extension_loop.simps) simp
          ultimately show ?thesis by simp
        next
          case (Inr p)
          obtain x g1 where p: "p = (x, g1)" by (cases p)
          from d Inr p obtain h1 where d2: "draw_one gen2 a2 mr te (rng s2) = Inr (x, h1)"
            and r1: "R g1 h1"
            by (cases "draw_one gen2 a2 mr te (rng s2)") auto
          let ?u = "\<lparr>t_last = t_last s1 + x, extra_spikes = extra_spikes s1 @ [t_last s1], rng = g1\<rparr>"
          let ?v = "\<lparr>t_last = t_last s2 + x, extra_spikes = extra_spikes s2 @ [t_last s2], rng = h1\<rparr>"
          from prems(2) True Inr p have run': "loop gen1 a1 mr te ?u = Some y1" by simp
          from t e r1 have "same_state R ?u ?v" by (simp add: same_state_def)
          with prems(1) [OF run'] sim obtain y2
            where "extension_loop gen2 a2 mr te ?v = Some y2" and "rel_sum (=) (same_state R) y1 y2"
            by blast
          moreover from True t d2
          have "extension_loop gen2 a2 mr te s2 = extension_loop gen2 a2 mr te ?v"
            by (subst extension_loop.simps) simp
          ultimately show ?thesis by simp
        qed
      qed
    qed
    done
  with sim rel show ?thesis by blast
qed

lemma same_state_sym: "same_state R u v \<Longrightarrow> same_state (\<lambda>h g. R g h) v u"
  by (simp add: same_state_def)

lemma extension_loop_same:
  assumes sim: "same_draws gen1 a1 gen2 a2 R"
    and rel: "same_state R s1 s2"
  shows "rel_option (rel_sum (=) (same_state R))
           (extension_loop gen1 a1 mr te s1) (extension_loop gen2 a2 mr te s2)"
proof (cases "extension_loop gen1 a1 mr te s1")
  case (Some y1)
  from extension_loop_simulated [OF Some sim rel] Some show ?thesis by auto
next
  case None
  show ?thesis
  proof (cases "extension_loop gen2 a2 mr te s2")
    case (Some y2)
    from extension_loop_simulated [OF Some same_draws_sym [OF sim] same_state_sym [OF rel]] None
    show ?thesis by auto
  next
    case n2: None
    with None show ?thesis by simp
  qed
qed

subsection \<open>Rescaling and single draws\<close>

lemma rescale_nonneg:
  "0 < units mean_rate \<Longrightarrow> 0 < units t_stop \<Longrightarrow> 0 \<le> x \<Longrightarrow> 0 \<le> rescale mean_rate t_stop x"
  by (simp add: rescale_def rescale_to_def)



lemma draw_one_value:
  assumes "draw_one gen args mr te g = Inr (x, g1)"
  shows "\<exists>r \<in> set (fst (gen args 1 g)). x = rescale mr te r"
proof -
  obtain raw g' where e: "gen args 1 g = (raw, g')" by (cases "gen args 1 g")
  with assms show ?thesis
    by (cases raw) (auto simp: draw_one_def)
qed

lemma draw_one_nonneg:
  assumes "draw_one gen args mr te g = Inr (x, g1)"
    and "\<forall>n h. \<forall>r\<in>set (fst (gen args n h)). 0 \<le> r"
    and "0 < units mr" "0 < units te"
  shows "0 \<le> x"
proof -
  from draw_one_value [OF assms(1)] obtain r
    where "r \<in> set (fst (gen args 1 g))" and x: "x = rescale mr te r" by blast
  with assms(2) have "0 \<le> r" by blast
  with x assms(3,4) show ?thesis by (simp add: rescale_nonneg)
qed



subsection \<open>The bulk draw\<close>

lemma bulk_spikes_sorted:
  assumes bulk: "bulk_spikes gen args mr ts te number g = (spikes, g1)"
    and nonneg: "\<forall>n h. \<forall>r\<in>set (fst (gen args n h)). 0 \<le> r"
    and units: "0 < units mr" "0 < units te"
  shows "sorted spikes \<and> (\<forall>t\<in>set spikes. rescale_to ts (units te) \<le> t)"
proof -
  obtain raw g' where e: "gen args (nat number) g = (raw, g')"
    by (cases "gen args (nat number) g")
  let ?isi = "map (rescale mr te) raw"
  from e nonneg have "\<forall>r\<in>set raw. 0 \<le> r" by (metis fst_conv)
  with units have isi: "\<forall>x\<in>set ?isi. 0 \<le> x" by (simp add: rescale_nonneg)
  from bulk e have s: "spikes = map (\<lambda>s. s + rescale_to ts (units te)) (cumsum_from 0 ?isi)"
    by (simp add: bulk_spikes_def cumsum_def)
  have "sorted (cumsum_from 0 ?isi)" by (rule cumsum_from_sorted [OF isi])
  then have "sorted spikes" unfolding s
    by (simp add: sorted_map sorted_wrt_iff_nth_less)
  moreover have "\<forall>t\<in>set spikes. rescale_to ts (units te) \<le> t"
    unfolding s using cumsum_from_ge [OF isi, of _ 0] by auto
  ultimately show ?thesis by blast
qed


lemma searchsorted_all_less:
  assumes "sorted arr" "searchsorted arr key = length arr"
  shows "\<forall>t\<in>set arr. t < key"
  using searchsorted_sorted [OF assms(1), of key] assms(2)
  by (auto simp: in_set_conv_nth)

subsection \<open>What the extension loop keeps, raises and returns\<close>

lemma extension_loop_window:
  assumes loop: "extension_loop gen args mr te st = Some (Inr fin)"
    and nonneg: "\<forall>n h. \<forall>r\<in>set (fst (gen args n h)). 0 \<le> r"
    and units: "0 < units mr" "0 < units te"
    and init: "sorted (extra_spikes st @ [t_last st])"
      "\<forall>t\<in>set (extra_spikes st). t < magnitude te"
      "\<forall>t\<in>set (extra_spikes st @ [t_last st]). lo \<le> t"
  shows "sorted (extra_spikes fin) \<and>
         (\<forall>t\<in>set (extra_spikes fin). lo \<le> t \<and> t < magnitude te)"
proof -
  let ?J = "\<lambda>s. sorted (extra_spikes s @ [t_last s]) \<and>
      (\<forall>t\<in>set (extra_spikes s). t < magnitude te) \<and>
      (\<forall>t\<in>set (extra_spikes s @ [t_last s]). lo \<le> t)"
  have "?J fin \<and> \<not> t_last fin < magnitude te"
  proof (rule extension_loop_invariant [where I = ?J, OF loop])
    from init show "?J st" by blast
  next
    fix s x g1
    assume J: "?J s" and lt: "t_last s < magnitude te"
      and d: "draw_one gen args mr te (rng s) = Inr (x, g1)"
    from draw_one_nonneg [OF d nonneg units] have x: "0 \<le> x" .
    from J have a: "sorted (extra_spikes s @ [t_last s])"
      and b: "\<forall>t\<in>set (extra_spikes s). t < magnitude te"
      and c: "\<forall>t\<in>set (extra_spikes s @ [t_last s]). lo \<le> t" by blast+
    from a x have "sorted ((extra_spikes s @ [t_last s]) @ [t_last s + x])"
      by (simp add: sorted_append) force
    moreover from b lt have "\<forall>t\<in>set (extra_spikes s @ [t_last s]). t < magnitude te" by simp
    moreover from c x have "\<forall>t\<in>set ((extra_spikes s @ [t_last s]) @ [t_last s + x]). lo \<le> t"
      by simp
    ultimately
    show "?J \<lparr>t_last = t_last s + x, extra_spikes = extra_spikes s @ [t_last s], rng = g1\<rparr>"
      by simp
  qed
  then show ?thesis by (simp add: sorted_append)
qed



subsection \<open>The sampler, branch by branch\<close>

lemma homogeneous_process_returns:
  assumes run: "homogeneous_process gen args mr ts te aa g = Some (Inr (out, g'))"
  shows "\<exists>number spikes g1.
    sample_number (expected_count mr ts te) = Some number \<and> 4 < number \<and>
    bulk_spikes gen args mr ts te number g = (spikes, g1) \<and>
    (searchsorted spikes (magnitude te) \<noteq> length spikes \<longrightarrow>
       out = package aa (take (searchsorted spikes (magnitude te)) spikes) ts te \<and> g' = g1) \<and>
    (searchsorted spikes (magnitude te) = length spikes \<longrightarrow>
       spikes \<noteq> [] \<and> (\<exists>x g2 fin. draw_one gen args mr te g1 = Inr (x, g2) \<and>
         extension_loop gen args mr te
           \<lparr>t_last = last spikes + x, extra_spikes = [], rng = g2\<rparr> = Some (Inr fin) \<and>
         out = package aa (spikes @ extra_spikes fin) ts te \<and> g' = rng fin))"
proof -
  from run obtain number where n: "sample_number (expected_count mr ts te) = Some number"
    by (cases "sample_number (expected_count mr ts te)") (simp_all add: homogeneous_process_def)
  from run n have gt: "4 < number"
    by (cases "4 < number") (simp_all add: homogeneous_process_def)
  obtain spikes g1 where b: "bulk_spikes gen args mr ts te number g = (spikes, g1)"
    by (cases "bulk_spikes gen args mr ts te number g")
  let ?i = "searchsorted spikes (magnitude te)"
  have A: "out = package aa (take ?i spikes) ts te \<and> g' = g1" if "?i \<noteq> length spikes"
    using run n gt b that by (simp add: homogeneous_process_def)
  have B: "spikes \<noteq> [] \<and> (\<exists>x g2 fin. draw_one gen args mr te g1 = Inr (x, g2) \<and>
         extension_loop gen args mr te
           \<lparr>t_last = last spikes + x, extra_spikes = [], rng = g2\<rparr> = Some (Inr fin) \<and>
         out = package aa (spikes @ extra_spikes fin) ts te \<and> g' = rng fin)"
    if "?i = length spikes"
    using run n gt b that
    by (auto simp: homogeneous_process_def split: if_splits sum.splits option.splits)
  from n gt b A B show ?thesis by blast
qed

lemma times_package [simp]: "times (package aa xs ts te) = xs"
  by (simp add: package_def)


subsection \<open>Worked examples\<close>

text \<open>
  A rate of \<open>1 Hz\<close> over the default window of \<open>1000 ms\<close> gives \<open>n = 1\<close> and seven
  samples. Intervals of \<open>300 ms\<close> overshoot the window within the buffer, intervals of
  \<open>120 ms\<close> leave the buffer short of it by two steps, and intervals of \<open>0 ms\<close> never
  reach it.
\<close>

lemma ms_simps [simp]: "magnitude (ms x) = x" "units (ms x) = 1 / 1000"
  by (simp_all add: ms_def)

lemma Hz_simps [simp]: "magnitude (Hz x) = x" "units (Hz x) = 1"
  by (simp_all add: Hz_def)

lemma rescale_Hz_ms [simp]: "rescale (Hz r) (ms t) x = 1000 * x"
  by (simp add: rescale_def rescale_to_def)

lemma expected_count_one_second: "expected_count (Hz 1) (ms 0) (ms 1000) = 1"
  by (simp add: expected_count_def python_int_def simplified_def q_times_def q_minus_def rescale_to_def)


lemma expected_count_four: "expected_count (Hz 4) (ms 0) (ms 1000) = 4"
  by (simp add: expected_count_def python_int_def simplified_def q_times_def q_minus_def rescale_to_def)

lemma sample_number_one: "sample_number 1 = Some 7"
  by (simp add: sample_number_def)


lemma sample_number_four: "sample_number 4 = Some 13"
  by (simp add: sample_number_def)

lemma draw_one_constant [simp]:
  "draw_one (constant_generator c) args (Hz r) (ms t) g = Inr (1000 * c, g + 1)"
  by (simp add: draw_one_def constant_generator_def)

lemma bulk_spikes_constant_7:
  "bulk_spikes (constant_generator c) args (Hz r) (ms 0) (ms t) 7 g =
     ([1000 * c, 2000 * c, 3000 * c, 4000 * c, 5000 * c, 6000 * c, 7000 * c], g + 7)"
  by (simp add: bulk_spikes_def constant_generator_def cumsum_def rescale_to_def eval_nat_numeral)


lemma searchsorted_surplus_example: "searchsorted [300, 600, 900, 1200, 1500, 1800, 2100] 1000 = 3"
  by (simp add: searchsorted_def binsearch_left.simps Let_def)

lemma searchsorted_underrun_example: "searchsorted [120, 240, 360, 480, 600, 720, 840] 1000 = 7"
  by (simp add: searchsorted_def binsearch_left.simps Let_def)



lemma surplus_example:
  "homogeneous_process (constant_generator (3 / 10)) args (Hz 1) (ms 0) (ms 1000) as_array 0 =
     Some (Inr (package as_array [300, 600, 900] (ms 0) (ms 1000), 7))"
  by (simp add: homogeneous_process_def expected_count_one_second sample_number_one
      bulk_spikes_constant_7 searchsorted_surplus_example)

lemma extension_loop_example:
  "extension_loop (constant_generator (3 / 25)) args (Hz 1) (ms 1000)
     \<lparr>t_last = 960, extra_spikes = [], rng = 8\<rparr> =
   Some (Inr \<lparr>t_last = 1080, extra_spikes = [960], rng = 9\<rparr>)"
  by (simp add: extension_loop.simps)

lemma underrun_example:
  "homogeneous_process (constant_generator (3 / 25)) args (Hz 1) (ms 0) (ms 1000) as_array 0 =
     Some (Inr (package as_array [120, 240, 360, 480, 600, 720, 840, 960] (ms 0) (ms 1000), 9))"
  by (simp add: homogeneous_process_def expected_count_one_second sample_number_one
      bulk_spikes_constant_7 searchsorted_underrun_example extension_loop_example)


lemma bulk_spikes_mean_13:
  "distribution_mean args = 1 / 4 \<Longrightarrow>
   bulk_spikes mean_generator args (Hz r) (ms 0) (ms t) 13 g =
     ([250, 500, 750, 1000, 1250, 1500, 1750, 2000, 2250, 2500, 2750, 3000, 3250], g + 13)"
  by (simp add: bulk_spikes_def mean_generator_def cumsum_def rescale_to_def eval_nat_numeral)

lemma searchsorted_mean_example:
  "searchsorted [250, 500, 750, 1000, 1250, 1500, 1750, 2000, 2250, 2500, 2750, 3000, 3250] 1000 = 3"
  by (simp add: searchsorted_def binsearch_left.simps Let_def)

lemma mean_generator_example:
  "distribution_mean args = 1 / 4 \<Longrightarrow>
   homogeneous_process mean_generator args (Hz 4) (ms 0) (ms 1000) as_array g =
     Some (Inr (package as_array [250, 500, 750] (ms 0) (ms 1000), g + 13))"
  by (simp add: homogeneous_process_def expected_count_four sample_number_four
      bulk_spikes_mean_13 searchsorted_mean_example)

lemma same_draws_constant_stateless:
  "same_draws (constant_generator c) args1 (stateless_generator c) args2 (\<lambda>g h. True)"
  by (simp add: same_draws_def constant_generator_def stateless_generator_def)

section \<open>The properties of the specification\<close>

text \<open>
  Claim C1. When a call of \<^verbatim>\<open>_homogeneous_process\<close> returns and the interval generator
  returns only non-negative values, the returned event times are non-decreasing and every
  one of them lies in the window: at least \<open>t_start\<close> (read in the unit of \<open>t_stop\<close>) and
  strictly below \<open>t_stop\<close>. The units are units of positive size. The bound holds for
  every window, in particular for those with \<open>t_start < t_stop\<close>; the two public entry
  points return what the sampler returns (claims C7 and C8), so it holds for them too.
\<close>

theorem event_times_in_window:
  assumes run: "homogeneous_process gen args mean_rate t_start t_stop as_array g = Some (Inr (out, g'))"
    and nonneg: "\<forall>n h. \<forall>r\<in>set (fst (gen args n h)). 0 \<le> r"
    and units: "0 < units mean_rate" "0 < units t_stop"
  shows "sorted (times out) \<and>
         (\<forall>t\<in>set (times out). rescale_to t_start (units t_stop) \<le> t \<and> t < magnitude t_stop)"
proof -
  let ?lo = "rescale_to t_start (units t_stop)" and ?hi = "magnitude t_stop"
  from homogeneous_process_returns [OF run] obtain number spikes g1 where
    bulk: "bulk_spikes gen args mean_rate t_start t_stop number g = (spikes, g1)"
    and surplus: "searchsorted spikes ?hi \<noteq> length spikes \<longrightarrow>
       out = package as_array (take (searchsorted spikes ?hi) spikes) t_start t_stop \<and> g' = g1"
    and underrun: "searchsorted spikes ?hi = length spikes \<longrightarrow>
       spikes \<noteq> [] \<and> (\<exists>x g2 fin. draw_one gen args mean_rate t_stop g1 = Inr (x, g2) \<and>
         extension_loop gen args mean_rate t_stop
           \<lparr>t_last = last spikes + x, extra_spikes = [], rng = g2\<rparr> = Some (Inr fin) \<and>
         out = package as_array (spikes @ extra_spikes fin) t_start t_stop \<and> g' = rng fin)"
    by blast
  from bulk_spikes_sorted [OF bulk nonneg units]
  have srt: "sorted spikes" and low: "\<forall>t\<in>set spikes. ?lo \<le> t" by simp_all
  show ?thesis
  proof (cases "searchsorted spikes ?hi = length spikes")
    case False
    with surplus have out: "times out = take (searchsorted spikes ?hi) spikes" by simp
    have "sorted (take (searchsorted spikes ?hi) spikes)" using srt by simp
    moreover have "?lo \<le> t \<and> t < ?hi" if "t \<in> set (take (searchsorted spikes ?hi) spikes)" for t
      using low searchsorted_take_less [OF srt that] in_set_takeD [OF that] by simp
    ultimately show ?thesis by (simp add: out)
  next
    case True
    with underrun obtain x g2 fin where ne: "spikes \<noteq> []"
      and d: "draw_one gen args mean_rate t_stop g1 = Inr (x, g2)"
      and loop: "extension_loop gen args mean_rate t_stop
           \<lparr>t_last = last spikes + x, extra_spikes = [], rng = g2\<rparr> = Some (Inr fin)"
      and out: "out = package as_array (spikes @ extra_spikes fin) t_start t_stop" by blast
    from searchsorted_all_less [OF srt True] have high: "\<forall>t\<in>set spikes. t < ?hi" .
    from draw_one_nonneg [OF d nonneg units] have x: "0 \<le> x" .
    have top: "t \<le> last spikes" if "t \<in> set spikes" for t
    proof -
      from that obtain j where "j < length spikes" "t = spikes ! j" by (auto simp: in_set_conv_nth)
      with srt ne show ?thesis by (simp add: last_conv_nth sorted_nth_mono)
    qed
    from ne low have ll: "?lo \<le> last spikes" by simp
    from extension_loop_window [OF loop nonneg units, of "last spikes"] x
    have ex: "sorted (extra_spikes fin)"
      and bounds: "\<forall>t\<in>set (extra_spikes fin). last spikes \<le> t \<and> t < ?hi" by simp_all
    have "sorted (spikes @ extra_spikes fin)"
      unfolding sorted_append using srt ex top bounds by fastforce
    moreover have "?lo \<le> t \<and> t < ?hi" if "t \<in> set (spikes @ extra_spikes fin)" for t
      using that low high bounds ll by fastforce
    ultimately show ?thesis by (simp add: out)
  qed
qed

theorem event_times_in_window_witness:
  "homogeneous_process (constant_generator (3 / 25)) () (Hz 1) (ms 0) (ms 1000) True 0 =
     Some (Inr (Array [120, 240, 360, 480, 600, 720, 840, 960], 9)) \<and>
   sorted (times (Array [120, 240, 360, 480, 600, 720, 840, 960])) \<and>
   rescale_to (ms 0) (units (ms 1000)) \<le> 120 \<and> (960::real) < magnitude (ms 1000)"
proof -
  have run: "homogeneous_process (constant_generator (3 / 25)) () (Hz 1) (ms 0) (ms 1000) True 0 =
     Some (Inr (Array [120, 240, 360, 480, 600, 720, 840, 960], 9))"
    by (simp add: underrun_example package_def)
  have nonneg: "\<forall>n h. \<forall>r\<in>set (fst (constant_generator (3 / 25) () n (h::nat))). 0 \<le> r"
    by (simp add: constant_generator_def)
  have units: "0 < units (Hz 1)" "0 < units (ms 1000)" by simp_all
  from event_times_in_window [OF run nonneg units] run
  show ?thesis by simp
qed

text \<open>
  Claim C2, as the specification states it: the sample count is computed from the
  product \<open>n = (t_stop - t_start) * mean_rate\<close> itself. The source truncates the product
  to an integer first. For a rate of \<open>0.25 Hz\<close> over \<open>1000 ms\<close> the product is \<open>0.25\<close>:
  the source computes \<open>n = 0\<close> and draws \<open>5\<close> samples, where the formula on \<open>0.25\<close> gives
  \<open>ceil(0.25 + 1.5) = 2 < 100\<close> and so \<open>min(5 + ceil(0.5), 100) = 6\<close>.
\<close>

theorem sample_count_untruncated_counterexample:
  "sample_number (expected_count (Hz (1 / 4)) (ms 0) (ms 1000)) = Some 5 \<and>
   spec_sample_size (simplified (q_times (q_minus (ms 1000) (ms 0)) (Hz (1 / 4)))) = 6"
  by (simp add: sample_number_def expected_count_def python_int_def simplified_def q_times_def
      q_minus_def rescale_to_def spec_sample_size_def sqrt_quarter ceiling_half)

text \<open>
  Claim C2, amended: with \<open>n\<close> the product \<open>(t_stop - t_start) * mean_rate\<close> truncated
  towards zero to an integer, and \<open>n\<close> non-negative, the sample count is
  \<open>ceil(n + 3 * sqrt(n))\<close>, and \<open>min(5 + ceil(2 * n), 100)\<close> whenever that value is below
  \<open>100\<close>.
\<close>

theorem sample_count_of_truncated_product:
  assumes "0 \<le> expected_count mean_rate t_start t_stop"
  shows "expected_count mean_rate t_start t_stop =
           python_int (simplified (q_times (q_minus t_stop t_start) mean_rate)) \<and>
         sample_number (expected_count mean_rate t_start t_stop) =
           Some (spec_sample_size (real_of_int (expected_count mean_rate t_start t_stop)))"
proof
  show "expected_count mean_rate t_start t_stop =
           python_int (simplified (q_times (q_minus t_stop t_start) mean_rate))"
    by (simp add: expected_count_def)
next
  let ?n = "expected_count mean_rate t_start t_stop"
  have "\<lceil>real_of_int (2 * ?n)\<rceil> = \<lceil>2 * real_of_int ?n\<rceil>" by simp
  with assms show "sample_number ?n = Some (spec_sample_size (real_of_int ?n))"
    by (simp add: sample_number_def spec_sample_size_def Let_def)
qed

theorem sample_count_of_truncated_product_witness:
  "expected_count (Hz (1 / 4)) (ms 0) (ms 1000) = 0 \<and>
   sample_number (expected_count (Hz (1 / 4)) (ms 0) (ms 1000)) = Some (spec_sample_size 0) \<and>
   spec_sample_size 0 = 5"
proof -
  have n: "expected_count (Hz (1 / 4)) (ms 0) (ms 1000) = 0"
    by (simp add: expected_count_def python_int_def simplified_def q_times_def q_minus_def
        rescale_to_def)
  then have "0 \<le> expected_count (Hz (1 / 4)) (ms 0) (ms 1000)" by simp
  from sample_count_of_truncated_product [OF this] n
  show ?thesis by (simp add: spec_sample_size_def)
qed











text \<open>
  Claim C7. For a positive rate, \<^verbatim>\<open>homogeneous_poisson_process\<close> returns exactly what
  the sampler returns for the exponential generator, the one-element argument tuple
  holding \<open>mean_interval = 1 / rate\<close>, the mean rate \<open>rate\<close>, and the same \<open>t_start\<close>,
  \<open>t_stop\<close> and \<open>as_array\<close>.
\<close>

theorem poisson_forwards_to_sampler:
  assumes "0 < magnitude rate" "0 < units rate"
  shows "homogeneous_poisson_process np_random_exponential rate t_start t_stop as_array g =
         homogeneous_process np_random_exponential
           [Quantity \<lparr>magnitude = 1 / magnitude rate, units = 1 / units rate\<rparr>]
           rate t_start t_stop as_array g"
  by (simp add: homogeneous_poisson_process_def q_inverse_def)

theorem poisson_forwards_to_sampler_witness:
  "homogeneous_poisson_process mean_generator (Hz 4) (ms 0) (ms 1000) True 0 =
     Some (Inr (Array [250, 500, 750], 13))"
proof -
  have "0 < magnitude (Hz 4)" "0 < units (Hz 4)" by simp_all
  from poisson_forwards_to_sampler [OF this, of mean_generator "ms 0" "ms 1000" True 0]
  show ?thesis by (simp add: mean_generator_example package_def)
qed

text \<open>
  Claim C8. For a positive shape \<open>a\<close> and a positive rate \<open>b\<close>,
  \<^verbatim>\<open>homogeneous_gamma_process\<close> returns exactly what the sampler returns for the gamma
  generator, the argument tuple of the shape \<open>a\<close> and the scale \<open>1 / b\<close>, the mean rate
  \<open>b / a\<close>, and the same \<open>t_start\<close>, \<open>t_stop\<close> and \<open>as_array\<close>.
\<close>

theorem gamma_forwards_to_sampler:
  assumes "0 < a" "0 < magnitude b" "0 < units b"
  shows "homogeneous_gamma_process np_random_gamma a b t_start t_stop as_array g =
         homogeneous_process np_random_gamma
           [Number a, Quantity \<lparr>magnitude = 1 / magnitude b, units = 1 / units b\<rparr>]
           \<lparr>magnitude = magnitude b / a, units = units b\<rparr> t_start t_stop as_array g"
  by (simp add: homogeneous_gamma_process_def q_inverse_def q_div_number_def)

theorem gamma_forwards_to_sampler_witness:
  "homogeneous_gamma_process mean_generator 2 (Hz 8) (ms 0) (ms 1000) True 0 =
     Some (Inr (Array [250, 500, 750], 13))"
proof -
  have h: "0 < (2::real)" "0 < magnitude (Hz 8)" "0 < units (Hz 8)" by simp_all
  have r: "\<lparr>magnitude = 4, units = 1\<rparr> = Hz 4" by (simp add: Hz_def)
  from gamma_forwards_to_sampler [OF h, of mean_generator "ms 0" "ms 1000" True 0]
  show ?thesis by (simp add: r mean_generator_example package_def)
qed



text \<open>
  Claim C10. The result depends on the generator only through the values it returns:
  two calls with equal rate, window and \<open>as_array\<close>, whose generators (of whatever kind of
  random state) return the same values draw after draw, agree. Both do not return, or
  both raise the same error, or both return the same result.
\<close>

theorem output_determined_by_drawn_values:
  assumes sim: "same_draws gen1 args1 gen2 args2 R" and rel: "R g h"
  shows "rel_option (rel_sum (=) (\<lambda>p q. fst p = fst q \<and> R (snd p) (snd q)))
     (homogeneous_process gen1 args1 mean_rate t_start t_stop as_array g)
     (homogeneous_process gen2 args2 mean_rate t_start t_stop as_array h)"
proof (cases "sample_number (expected_count mean_rate t_start t_stop)")
  case None
  then show ?thesis by (simp add: homogeneous_process_def)
next
  case number: (Some number)
  show ?thesis
  proof (cases "4 < number")
    case False
    with number show ?thesis by (simp add: homogeneous_process_def)
  next
    case gt: True
    obtain sp1 g1 where b1: "bulk_spikes gen1 args1 mean_rate t_start t_stop number g = (sp1, g1)"
      by (cases "bulk_spikes gen1 args1 mean_rate t_start t_stop number g")
    obtain sp2 h1 where b2: "bulk_spikes gen2 args2 mean_rate t_start t_stop number h = (sp2, h1)"
      by (cases "bulk_spikes gen2 args2 mean_rate t_start t_stop number h")
    from bulk_spikes_same [OF sim rel, of mean_rate t_start t_stop number] b1 b2
    have sp: "sp2 = sp1" and r1: "R g1 h1" by simp_all
    show ?thesis
    proof (cases "searchsorted sp1 (magnitude t_stop) = length sp1")
      case False
      with number gt b1 b2 sp r1 show ?thesis by (simp add: homogeneous_process_def)
    next
      case underrun: True
      show ?thesis
      proof (cases "sp1 = []")
        case True
        with number gt b1 b2 sp underrun show ?thesis by (simp add: homogeneous_process_def)
      next
        case ne: False
        note d = draw_one_same [OF sim r1, of mean_rate t_stop]
        show ?thesis
        proof (cases "draw_one gen1 args1 mean_rate t_stop g1")
          case (Inl e)
          with d have "draw_one gen2 args2 mean_rate t_stop h1 = Inl e"
            by (cases "draw_one gen2 args2 mean_rate t_stop h1") simp_all
          with number gt b1 b2 sp underrun ne Inl show ?thesis
            by (simp add: homogeneous_process_def)
        next
          case (Inr p)
          obtain x g2 where p: "p = (x, g2)" by (cases p)
          from d Inr p obtain h2
            where d2: "draw_one gen2 args2 mean_rate t_stop h1 = Inr (x, h2)" and r2: "R g2 h2"
            by (cases "draw_one gen2 args2 mean_rate t_stop h1") auto
          let ?u = "\<lparr>t_last = last sp1 + x, extra_spikes = [], rng = g2\<rparr>"
          let ?v = "\<lparr>t_last = last sp1 + x, extra_spikes = [], rng = h2\<rparr>"
          from r2 have "same_state R ?u ?v" by (simp add: same_state_def)
          from extension_loop_same [OF sim this, of mean_rate t_stop]
          have loops: "rel_option (rel_sum (=) (same_state R))
              (extension_loop gen1 args1 mean_rate t_stop ?u)
              (extension_loop gen2 args2 mean_rate t_stop ?v)" .
          have left: "homogeneous_process gen1 args1 mean_rate t_start t_stop as_array g =
              (case extension_loop gen1 args1 mean_rate t_stop ?u of
                 None \<Rightarrow> None
               | Some (Inl e) \<Rightarrow> Some (Inl e)
               | Some (Inr st) \<Rightarrow>
                   Some (Inr (package as_array (sp1 @ extra_spikes st) t_start t_stop, rng st)))"
            using number gt b1 underrun ne Inr p by (simp add: homogeneous_process_def)
          have right: "homogeneous_process gen2 args2 mean_rate t_start t_stop as_array h =
              (case extension_loop gen2 args2 mean_rate t_stop ?v of
                 None \<Rightarrow> None
               | Some (Inl e) \<Rightarrow> Some (Inl e)
               | Some (Inr st) \<Rightarrow>
                   Some (Inr (package as_array (sp1 @ extra_spikes st) t_start t_stop, rng st)))"
            using number gt b2 sp underrun ne d2 by (simp add: homogeneous_process_def)
          show ?thesis
          proof (cases "extension_loop gen1 args1 mean_rate t_stop ?u")
            case None
            with loops have "extension_loop gen2 args2 mean_rate t_stop ?v = None" by simp
            with None left right show ?thesis by simp
          next
            case run1: (Some y1)
            with loops obtain y2
              where run2: "extension_loop gen2 args2 mean_rate t_stop ?v = Some y2"
                and ys: "rel_sum (=) (same_state R) y1 y2"
              by (cases "extension_loop gen2 args2 mean_rate t_stop ?v") auto
            from ys run1 run2 left right show ?thesis
              by (cases y1; cases y2) (simp_all add: same_state_def)
          qed
        qed
      qed
    qed
  qed
qed

theorem output_determined_by_drawn_values_witness:
  "homogeneous_process (stateless_generator (3 / 25)) () (Hz 1) (ms 0) (ms 1000) True () =
     Some (Inr (Array [120, 240, 360, 480, 600, 720, 840, 960], ()))"
proof -
  have t: "homogeneous_process (constant_generator (3 / 25)) () (Hz 1) (ms 0) (ms 1000) True 0 =
     Some (Inr (Array [120, 240, 360, 480, 600, 720, 840, 960], 9))"
    by (simp add: underrun_example package_def)
  have "same_draws (constant_generator (3 / 25)) () (stateless_generator (3 / 25)) ()
      (\<lambda>(g::nat) (h::unit). True)"
    by (rule same_draws_constant_stateless)
  from output_determined_by_drawn_values [OF this TrueI, where g = 0 and h = "()"
      and mean_rate = "Hz 1" and t_start = "ms 0" and t_stop = "ms 1000" and as_array = True]
  show ?thesis
    unfolding t
    by (cases "homogeneous_process (stateless_generator (3 / 25)) () (Hz 1) (ms 0) (ms 1000) True ()")
      (auto elim!: rel_sum.cases simp: prod_eq_iff)
qed

end
